theory Spec2Isabelle
  imports Complex_Main
begin

section \<open>Numbers and errors\<close>

text \<open>
  The notebook computes with numpy \<^verbatim>\<open>float64\<close> values. They are idealised here: a
  finite value is a real number and, unless said otherwise, arithmetic on finite values is
  exact (no rounding, no overflow). The values \<^verbatim>\<open>inf\<close>, \<^verbatim>\<open>-inf\<close> and \<^verbatim>\<open>nan\<close>, which
  numpy returns (with a warning, not an exception) for a division by zero or a square root
  of a negative number, are one absorbing value \<open>NonFinite\<close>. The precisions \<open>L\<close>, the data
  points \<open>X\<close> and the exponents are finite throughout; the perturbation \<open>D\<close> is the one input
  that the notebook computes with a partial operation (\<^verbatim>\<open>np.sqrt\<close>), so its entries are
  \<open>float64\<close> values.

  The idealisation carries the statements below that are about the structure of the
  computation (which function is applied to which data, in which order, with which
  errors). It does not carry statements about which value \<^verbatim>\<open>estimation_cost\<close> returns
  in floats, which depends on rounding, overflow and on the pivoting of numpy's inverse.
  Where a statement depends on the rounding of single operations (the builder of the
  \<open>d+1\<close>-agent family), the operations are modelled with their rounding (\<open>round_double\<close>
  below).
\<close>

datatype error = IndexError | ValueError | LinAlgError

datatype float64 = Finite real | NonFinite

fun fadd :: "float64 \<Rightarrow> float64 \<Rightarrow> float64" where
  "fadd (Finite a) (Finite b) = Finite (a + b)"
| "fadd _ _ = NonFinite"

fun fneg :: "float64 \<Rightarrow> float64" where
  "fneg (Finite a) = Finite (- a)"
| "fneg NonFinite = NonFinite"

text \<open>\<^verbatim>\<open>x**2\<close>\<close>

fun fsquare :: "float64 \<Rightarrow> float64" where
  "fsquare (Finite a) = Finite (a * a)"
| "fsquare NonFinite = NonFinite"

text \<open>\<^verbatim>\<open>x / y\<close> for a finite \<open>y\<close>: a zero divisor gives \<^verbatim>\<open>inf\<close>, \<^verbatim>\<open>-inf\<close> or \<^verbatim>\<open>nan\<close>.\<close>

fun fdiv :: "float64 \<Rightarrow> real \<Rightarrow> float64" where
  "fdiv (Finite a) y = (if y = 0 then NonFinite else Finite (a / y))"
| "fdiv NonFinite y = NonFinite"

text \<open>\<^verbatim>\<open>s * y\<close> for a finite \<open>y\<close>.\<close>

fun fscale :: "float64 \<Rightarrow> real \<Rightarrow> float64" where
  "fscale (Finite s) y = Finite (s * y)"
| "fscale NonFinite y = NonFinite"

text \<open>Python's \<^verbatim>\<open>sum\<close> (and \<^verbatim>\<open>np.sum\<close> of a list): a left fold from \<open>0\<close>.\<close>

definition fsum :: "float64 list \<Rightarrow> float64" where
  "fsum xs = foldl fadd (Finite 0) xs"

text \<open>\<^verbatim>\<open>np.sqrt\<close>: \<^verbatim>\<open>nan\<close> below zero.\<close>

definition np_sqrt :: "real \<Rightarrow> float64" where
  "np_sqrt x = (if x < 0 then NonFinite else Finite (sqrt x))"

text \<open>
  \<^verbatim>\<open>l ** exponent\<close> on finite floats: a negative base with a fractional exponent is
  \<^verbatim>\<open>nan\<close>, zero to a negative exponent is \<^verbatim>\<open>inf\<close>.
\<close>

definition np_power :: "real \<Rightarrow> real \<Rightarrow> float64" where
  "np_power l exponent =
     (if 0 < l then Finite (l powr exponent)
      else if l = 0 then
        (if 0 < exponent then Finite 0
         else if exponent = 0 then Finite 1
         else NonFinite)
      else if exponent = of_int \<lfloor>exponent\<rfloor> then Finite (l powi \<lfloor>exponent\<rfloor>)
      else NonFinite)"

subsection \<open>Rounding to \<^verbatim>\<open>float64\<close>\<close>

text \<open>
  IEEE 754 binary64, round to nearest, ties to even. \<open>round_to_even\<close> rounds a real to an
  integer. \<open>binade fuel x 0\<close> is the exponent \<open>e\<close> with \<open>2\<^sup>e \<le> x < 2\<^sup>e\<^sup>+\<^sup>1\<close> of a positive \<open>x\<close>,
  searched over \<open>-fuel \<dots> fuel\<close>. \<open>round_double x\<close> rounds \<open>x\<close> to 53 significant bits, with the
  fixed spacing \<open>2\<^sup>-\<^sup>1\<^sup>0\<^sup>7\<^sup>4\<close> below \<open>2\<^sup>-\<^sup>1\<^sup>0\<^sup>2\<^sup>2\<close> (subnormal numbers); the exponent is not
  bounded above, and \<open>f64\<close> turns a result of magnitude \<open>2\<^sup>1\<^sup>0\<^sup>2\<^sup>4\<close> or more into \<^verbatim>\<open>inf\<close>.
  An exponent beyond the searched range is clamped by the subnormal spacing below and
  overflows above, so the fuel \<open>1100\<close> is enough for every real.
\<close>

definition round_to_even :: "real \<Rightarrow> int" where
  "round_to_even x =
     (let f = \<lfloor>x\<rfloor>; r = x - of_int f
      in if r < 1 / 2 then f else if 1 / 2 < r then f + 1 else if even f then f else f + 1)"

fun binade :: "nat \<Rightarrow> real \<Rightarrow> int \<Rightarrow> int" where
  "binade 0 x e = e"
| "binade (Suc n) x e =
     (if x < 1 then binade n (2 * x) (e - 1)
      else if 2 \<le> x then binade n (x / 2) (e + 1)
      else e)"

definition round_double :: "real \<Rightarrow> real" where
  "round_double x =
     (if x = 0 then 0
      else
        let e = max (binade 1100 \<bar>x\<bar> 0) (- 1022);
            q = 2 powi (e - 52)
        in sgn x * of_int (round_to_even (\<bar>x\<bar> / q)) * q)"

definition f64 :: "real \<Rightarrow> float64" where
  "f64 x = (let r = round_double x in if 2 ^ 1024 \<le> \<bar>r\<bar> then NonFinite else Finite r)"

text \<open>\<^verbatim>\<open>np.sqrt\<close> and the product of two floats, correctly rounded.\<close>

definition f64_sqrt :: "real \<Rightarrow> float64" where
  "f64_sqrt x = (if x < 0 then NonFinite else f64 (sqrt x))"

fun f64_mul :: "float64 \<Rightarrow> real \<Rightarrow> float64" where
  "f64_mul (Finite s) y = f64 (s * y)"
| "f64_mul NonFinite y = NonFinite"

section \<open>Vectors and matrices as lists\<close>

text \<open>A vector is a list of reals, a matrix a list of rows.\<close>

definition vscale :: "real \<Rightarrow> real list \<Rightarrow> real list" where
  "vscale c v = map ((*) c) v"

definition vsub :: "real list \<Rightarrow> real list \<Rightarrow> real list" where
  "vsub u v = map2 (-) u v"

text \<open>\<^verbatim>\<open>res = np.zeros(d); res[i] = 1\<close>\<close>

definition unit_vector :: "nat \<Rightarrow> nat \<Rightarrow> real list" where
  "unit_vector d i = (replicate d 0)[i := 1]"

definition identity :: "nat \<Rightarrow> real list list" where
  "identity d = map (unit_vector d) [0..<d]"

text \<open>\<^verbatim>\<open>np.zeros((d,d))\<close>\<close>

definition zeros :: "nat \<Rightarrow> real list list" where
  "zeros d = replicate d (replicate d 0)"

text \<open>\<^verbatim>\<open>np.tensordot(x, y, axes=0)\<close>: the outer product.\<close>

definition outer :: "real list \<Rightarrow> real list \<Rightarrow> real list list" where
  "outer x y = map (\<lambda>a. map (\<lambda>b. a * b) y) x"

definition mat_scale :: "real \<Rightarrow> real list list \<Rightarrow> real list list" where
  "mat_scale c A = map (map ((*) c)) A"

text \<open>
  \<^verbatim>\<open>var += B\<close> for a square \<open>var\<close> and a square \<open>B\<close>: elementwise when the shapes agree;
  a \<open>1 \<times> 1\<close> matrix \<open>B\<close> is broadcast over \<open>var\<close>; any other shape raises \<^verbatim>\<open>ValueError\<close>.
\<close>

definition iadd :: "real list list \<Rightarrow> real list list \<Rightarrow> error + real list list" where
  "iadd var B =
     (if length B = length var then Inr (map2 (map2 (+)) var B)
      else if length B = 1 then Inr (map (map (\<lambda>v. v + B ! 0 ! 0)) var)
      else Inl ValueError)"

text \<open>\<^verbatim>\<open>np.trace\<close>\<close>

definition trace :: "real list list \<Rightarrow> real" where
  "trace A = sum_list (map (\<lambda>i. A ! i ! i) [0..<length A])"

subsection \<open>Matrix inverse\<close>

text \<open>
  \<^verbatim>\<open>np.matrix(var)**(-1)\<close> is numpy's matrix inverse, which raises \<^verbatim>\<open>LinAlgError\<close> when
  its elimination meets a zero pivot. It is modelled in exact arithmetic, by Gauss-Jordan
  elimination on the matrix augmented with the identity: \<open>reduced\<close> holds the rows whose
  pivot column is settled (row \<open>k\<close> has its pivot in column \<open>k\<close>), \<open>pending\<close> the other rows.
  The model returns the inverse exactly when there is one (\<open>matrix_inverse_complete\<close>,
  \<open>matrix_inverse_sound\<close>, \<open>matrix_inverse_None\<close> below). numpy's routine works in rounded
  arithmetic: it can raise on an invertible matrix and return a matrix for a singular one,
  and its entries are rounded. The theorems of this file about \<open>estimation_cost\<close> and its
  callers hold whatever the inverse returns; this model only lets them run on concrete
  inputs.
\<close>

definition eliminate :: "nat \<Rightarrow> real list \<Rightarrow> real list \<Rightarrow> real list" where
  "eliminate k q r = vsub r (vscale (r ! k) q)"

function gauss_jordan :: "real list list \<Rightarrow> real list list \<Rightarrow> real list list option" where
  "gauss_jordan reduced [] = Some reduced"
| "gauss_jordan reduced (t # ts) =
     (let k = length reduced in
      case List.extract (\<lambda>r. r ! k \<noteq> 0) (t # ts) of
        None \<Rightarrow> None
      | Some (pre, p, post) \<Rightarrow>
          let q = vscale (1 / p ! k) p
          in gauss_jordan (map (eliminate k q) reduced @ [q]) (map (eliminate k q) (pre @ post)))"
  by pat_completeness auto
termination
  by (relation "measure (\<lambda>(reduced, pending). length pending)")
     (auto simp: extract_Some_iff Cons_eq_append_conv)

definition matrix_inverse :: "real list list \<Rightarrow> real list list option" where
  "matrix_inverse M =
     (let d = length M in
      if list_all (\<lambda>r. length r = d) M
      then map_option (map (drop d)) (gauss_jordan [] (map2 (@) M (identity d)))
      else None)"

section \<open>Cost primitives\<close>

text \<open>
  \<^verbatim>\<open>privacy_cost(l, exponent, scaling_factor=1)\<close>. No caller passes a scaling factor,
  so it is the default \<open>1\<close>.
\<close>

definition privacy_cost :: "real \<Rightarrow> real \<Rightarrow> float64" where
  "privacy_cost l exponent = np_power (l / 1) exponent"

text \<open>A \<^verbatim>\<open>for\<close> loop over a list of indices whose body may raise.\<close>

fun for_loop :: "(nat \<Rightarrow> 's \<Rightarrow> error + 's) \<Rightarrow> nat list \<Rightarrow> 's \<Rightarrow> error + 's" where
  "for_loop body [] s = Inr s"
| "for_loop body (i # is) s =
     (case body i s of Inl e \<Rightarrow> Inl e | Inr s' \<Rightarrow> for_loop body is s')"

text \<open>The body of the loop of \<^verbatim>\<open>estimation_cost\<close>.\<close>

definition accumulate :: "real list \<Rightarrow> real list list \<Rightarrow> nat \<Rightarrow> real list list \<Rightarrow> error + real list list" where
  "accumulate L X i var =
     (if i < length X then iadd var (mat_scale (L ! i) (outer (X ! i) (X ! i)))
      else Inl IndexError)"

definition estimation_cost :: "real list \<Rightarrow> real list list \<Rightarrow> float64 list \<Rightarrow> error + float64" where
  "estimation_cost L X D =
     (case X of
        [] \<Rightarrow> Inl IndexError
      | x0 # _ \<Rightarrow>
          let d = length x0; n = length L in
          case for_loop (accumulate L X) [0..<n] (zeros d) of
            Inl e \<Rightarrow> Inl e
          | Inr var \<Rightarrow>
              (case matrix_inverse var of
                 None \<Rightarrow> Inl LinAlgError
               | Some var_inv \<Rightarrow>
                   let GLS_cost = trace var_inv in
                   if length D < n then Inl IndexError
                   else
                     let D_cost = fsum (map (\<lambda>i. fdiv (fsquare (D ! i)) (L ! i)) [0..<n])
                     in Inr (fadd (Finite GLS_cost) D_cost)))"

section \<open>Potential function\<close>

definition potential :: "real list \<Rightarrow> real list list \<Rightarrow> float64 list \<Rightarrow> real list \<Rightarrow> error + float64" where
  "potential L X D exponents =
     (case estimation_cost L X D of
        Inl e \<Rightarrow> Inl e
      | Inr estim_cost \<Rightarrow>
          if length exponents < length L then Inl IndexError
          else
            let indiv_cost = fsum (map (\<lambda>i. privacy_cost (L ! i) (exponents ! i)) [0..<length L])
            in Inr (fadd indiv_cost estim_cost))"

section \<open>Equilibrium solver\<close>

text \<open>
  \<^verbatim>\<open>scipy.optimize.minimize\<close> is a library routine: it is a parameter of the solver. It
  receives the objective, the starting point, the bounds and the tolerance, and returns
  \<^verbatim>\<open>sol.x\<close>, or the exception that the objective raised.
\<close>

type_synonym minimizer =
  "(real list \<Rightarrow> error + float64) \<Rightarrow> real list \<Rightarrow> (real \<times> real) list \<Rightarrow> real \<Rightarrow> error + real list"

definition covarianceEquilibrium ::
  "minimizer \<Rightarrow> real list list \<Rightarrow> float64 list \<Rightarrow> real list \<Rightarrow> error + float64 \<times> real list" where
  "covarianceEquilibrium minimize X D exponents =
     (let n = length X;
          bnds = map (\<lambda>i. (1 / 10 ^ 10, 1)) [0..<n];
          L0 = replicate n 1;
          tol = 1 / 10 ^ 20
      in case minimize (\<lambda>L. potential L X D exponents) L0 bnds tol of
           Inl e \<Rightarrow> Inl e
         | Inr x \<Rightarrow>
             (case estimation_cost x X D of
                Inl e \<Rightarrow> Inl e
              | Inr c \<Rightarrow> Inr (c, x)))"

text \<open>
  A simple optimiser, used to run the solver on concrete inputs: it rejects an ill-formed
  box, evaluates the objective once at the starting point clipped to the box and returns
  that point.
\<close>

definition clipped_start :: minimizer where
  "clipped_start f x0 bnds tol =
     (if length bnds \<noteq> length x0 \<or> list_ex (\<lambda>(lo, hi). hi < lo) bnds then Inl ValueError
      else
        let x = map2 (\<lambda>x (lo, hi). max lo (min hi x)) x0 bnds
        in case f x of Inl e \<Rightarrow> Inl e | Inr _ \<Rightarrow> Inr x)"

section \<open>Scenario builders\<close>

subsection \<open>The one-dimensional examples\<close>

definition perturbation_matrix_1Dexamples :: "int \<Rightarrow> real list list" where
  "perturbation_matrix_1Dexamples example_number =
     (if example_number = 1 then [[1], [-1]] else [[1], [-1], [0], [0]])"

definition exponents_1D_examples :: "int \<Rightarrow> real list" where
  "exponents_1D_examples example_number =
     (if example_number = 1 then [101 / 100, 20] else [101 / 100, 101 / 100, 11 / 10, 11 / 10])"

definition X_1D_examples :: "int \<Rightarrow> real list list" where
  "X_1D_examples example_number =
     (if example_number = 1 then [[1], [1]] else [[1], [1], [1], [1]])"

subsection \<open>The \<open>d\<close>-dimensional families\<close>

text \<open>
  The statements of \<^verbatim>\<open>compute_costs_and_precisions_d_plus_1\<close> before its call of the
  solver. \<^verbatim>\<open>np.ones(d)\<close> raises \<^verbatim>\<open>ValueError\<close> for a negative \<open>d\<close>. The operations that
  round are modelled with their rounding: the conversion of the integer \<open>d\<close> to a float,
  the division \<^verbatim>\<open>np.ones(d)/d\<close>, the square root and the product \<^verbatim>\<open>-d*np.sqrt(delta)\<close>.
  The products with \<^verbatim>\<open>np.ones\<close> are exact.
\<close>

definition scenario_d_plus_1 ::
  "int \<Rightarrow> real \<Rightarrow> real list \<Rightarrow> error + real list list \<times> float64 list \<times> real list" where
  "scenario_d_plus_1 d delta exps =
     (if d < 0 then Inl ValueError
      else if length exps < 2 then Inl IndexError
      else
        let n = nat d;
            X = map (unit_vector n) [0..<n]
                  @ [map (\<lambda>v. round_double (v / round_double (real_of_int d))) (replicate n 1)];
            exponents = (map (\<lambda>v. v * exps ! 0) (replicate (n + 1) 1))[n := exps ! 1];
            D = (map (fscale (f64_sqrt delta)) (replicate (n + 1) 1))
                  [n := f64_mul (f64_sqrt delta) (round_double (real_of_int (- d)))]
        in Inr (X, D, exponents))"

definition compute_costs_and_precisions_d_plus_1 ::
  "minimizer \<Rightarrow> int \<Rightarrow> real \<Rightarrow> real list \<Rightarrow> error + float64 \<times> real list" where
  "compute_costs_and_precisions_d_plus_1 minimize d delta exps =
     (case scenario_d_plus_1 d delta exps of
        Inl e \<Rightarrow> Inl e
      | Inr (X, D, exponents) \<Rightarrow> covarianceEquilibrium minimize X D exponents)"

text \<open>The statements of \<^verbatim>\<open>compute_costs_and_precisions\<close> before its call of the solver.\<close>

definition scenario_d_plus_2 ::
  "int \<Rightarrow> real \<Rightarrow> real list \<Rightarrow> error + real list list \<times> float64 list \<times> real list" where
  "scenario_d_plus_2 d delta exps =
     (if d < 0 then Inl ValueError
      else if length exps < 2 then Inl IndexError
      else
        let n = nat d;
            X = map (unit_vector n) [0..<n] @ [replicate n 1] @ [replicate n 1];
            exponents = (map (\<lambda>v. v * exps ! 0) (replicate (n + 2) 1))[n + 1 := exps ! 1];
            D = (replicate (n + 2) (Finite 0))[n := Finite delta, n + 1 := Finite (- delta)]
        in Inr (X, D, exponents))"

definition compute_costs_and_precisions ::
  "minimizer \<Rightarrow> int \<Rightarrow> real \<Rightarrow> real list \<Rightarrow> error + float64 \<times> real list" where
  "compute_costs_and_precisions minimize d delta exps =
     (case scenario_d_plus_2 d delta exps of
        Inl e \<Rightarrow> Inl e
      | Inr (X, D, exponents) \<Rightarrow> covarianceEquilibrium minimize X D exponents)"

section \<open>Sweep driver\<close>

text \<open>\<^verbatim>\<open>np.linspace(start, stop, num)\<close> with the end point included.\<close>

definition linspace :: "real \<Rightarrow> real \<Rightarrow> nat \<Rightarrow> real list" where
  "linspace start stop num =
     (if num = 0 then []
      else if num = 1 then [start]
      else (map (\<lambda>i. real i * ((stop - start) / real (num - 1)) + start) [0..<num])
             [num - 1 := stop])"

text \<open>A list comprehension whose element expression may raise.\<close>

fun comprehension :: "('a \<Rightarrow> error + 'b) \<Rightarrow> 'a list \<Rightarrow> error + 'b list" where
  "comprehension f [] = Inr []"
| "comprehension f (x # xs) =
     (case f x of
        Inl e \<Rightarrow> Inl e
      | Inr y \<Rightarrow> (case comprehension f xs of Inl e \<Rightarrow> Inl e | Inr ys \<Rightarrow> Inr (y # ys)))"

text \<open>
  The perturbation matrix of the one-dimensional examples is an \<open>n \<times> 1\<close> column; numpy
  uses its one-entry rows as scalars, so the column is passed on flattened.
\<close>

definition compute_for_example ::
  "minimizer \<Rightarrow> real \<Rightarrow> int \<Rightarrow> error + real list \<times> float64 list \<times> real list list" where
  "compute_for_example minimize deltaMax example_number =
     (let X = X_1D_examples example_number;
          E = exponents_1D_examples example_number;
          D = perturbation_matrix_1Dexamples example_number;
          deltas = linspace 0 deltaMax 100
      in case comprehension
                (\<lambda>delta. covarianceEquilibrium minimize X (map (fscale (np_sqrt delta)) (concat D)) E)
                deltas of
           Inl e \<Rightarrow> Inl e
         | Inr costs_precs \<Rightarrow> Inr (deltas, map fst costs_precs, map snd costs_precs))"

section \<open>Matrix product and inverse\<close>

text \<open>The product of two \<open>d \<times> d\<close> matrices, and what it is to be the inverse of one.\<close>

definition mat_mul :: "nat \<Rightarrow> real list list \<Rightarrow> real list list \<Rightarrow> real list list" where
  "mat_mul d A B =
     map (\<lambda>i. map (\<lambda>j. sum_list (map (\<lambda>k. A ! i ! k * B ! k ! j) [0..<d])) [0..<d]) [0..<d]"

definition square :: "nat \<Rightarrow> real list list \<Rightarrow> bool" where
  "square d A \<longleftrightarrow> length A = d \<and> list_all (\<lambda>r. length r = d) A"

definition is_inverse :: "nat \<Rightarrow> real list list \<Rightarrow> real list list \<Rightarrow> bool" where
  "is_inverse d M N \<longleftrightarrow> square d N \<and> mat_mul d N M = identity d \<and> mat_mul d M N = identity d"

section \<open>Net bias of a scenario\<close>

text \<open>
  The specification asks of a scenario that its net bias \<open>\<Sum>\<^sub>i D\<^sub>i \<cdot> X\<^sub>i\<close>, a vector of \<open>\<real>\<^sup>d\<close>,
  is zero.
\<close>

definition net_bias :: "nat \<Rightarrow> real list list \<Rightarrow> real list \<Rightarrow> real list" where
  "net_bias d X D = map (\<lambda>j. sum_list (map (\<lambda>i. D ! i * X ! i ! j) [0..<length X])) [0..<d]"

section \<open>Invariants of the elimination\<close>

text \<open>
  A row of the augmented matrix has \<open>2d\<close> entries. \<open>dot2 d u v r\<close> is the linear functional
  with weights \<open>u\<close> on the left half of the row and \<open>v\<close> on the right half.
\<close>

definition dot2 :: "nat \<Rightarrow> (nat \<Rightarrow> real) \<Rightarrow> (nat \<Rightarrow> real) \<Rightarrow> real list \<Rightarrow> real" where
  "dot2 d u v r = (\<Sum>i<d. u i * r ! i) + (\<Sum>i<d. v i * r ! (d + i))"

definition annihilates :: "nat \<Rightarrow> (nat \<Rightarrow> real) \<Rightarrow> (nat \<Rightarrow> real) \<Rightarrow> real list list \<Rightarrow> bool" where
  "annihilates d u v rows \<longleftrightarrow> (\<forall>r \<in> set rows. dot2 d u v r = 0)"

text \<open>
  The state of the elimination: \<open>d\<close> rows of length \<open>2d\<close>; the first columns of the reduced
  rows are unit vectors and vanish on the pending rows; every functional that vanishes on
  the current rows vanishes on the original rows (the row space has not shrunk); and the
  functionals of a given set \<open>W\<close> vanish on the current rows.
\<close>

definition rows_ok :: "nat \<Rightarrow> real list list \<Rightarrow> real list list \<Rightarrow> bool" where
  "rows_ok d reduced pending \<longleftrightarrow>
     length reduced + length pending = d \<and> (\<forall>r \<in> set (reduced @ pending). length r = d + d)"

definition pivots_ok :: "real list list \<Rightarrow> real list list \<Rightarrow> bool" where
  "pivots_ok reduced pending \<longleftrightarrow>
     (\<forall>i<length reduced. \<forall>j<length reduced. reduced ! i ! j = (if i = j then 1 else 0)) \<and>
     (\<forall>t \<in> set pending. \<forall>j<length reduced. t ! j = 0)"

definition gj_inv ::
  "nat \<Rightarrow> real list list \<Rightarrow> ((nat \<Rightarrow> real) \<times> (nat \<Rightarrow> real)) set \<Rightarrow> real list list \<Rightarrow> real list list \<Rightarrow> bool" where
  "gj_inv d orig W reduced pending \<longleftrightarrow>
     rows_ok d reduced pending \<and> pivots_ok reduced pending \<and>
     (\<forall>u v. annihilates d u v (reduced @ pending) \<longrightarrow> annihilates d u v orig) \<and>
     (\<forall>(u, v) \<in> W. annihilates d u v (reduced @ pending))"

section \<open>Arithmetic on \<open>float64\<close> values\<close>

lemma foldl_fadd_Finite: "foldl fadd (Finite a) (map Finite xs) = Finite (a + sum_list xs)"
  by (induction xs arbitrary: a) (simp_all add: add.assoc)

lemma fsum_Finite: "fsum (map Finite xs) = Finite (sum_list xs)"
  by (simp add: fsum_def foldl_fadd_Finite)

lemma sum_list_upt: "sum_list (map f [0..<n]) = (\<Sum>i<n. f i)"
  by (simp add: interv_sum_list_conv_sum_set_nat atLeast0LessThan)

lemma fadd_commute: "fadd a b = fadd b a"
  by (cases a; cases b) simp_all

lemma fsquare_fneg: "fsquare (fneg x) = fsquare x"
  by (cases x) simp_all

lemma fscale_Finite: "fscale (Finite s) = (\<lambda>v. Finite (s * v))"
  by (rule ext) simp

lemma np_sqrt_nonneg: "0 \<le> x \<Longrightarrow> np_sqrt x = Finite (sqrt x)"
  by (simp add: np_sqrt_def)

lemma sum_update:
  fixes f :: "nat \<Rightarrow> real"
  assumes "i < n"
  shows "(\<Sum>j<n. if j = i then a else f j) = (\<Sum>j<n. f j) + (a - f i)"
proof -
  have "(\<Sum>j<n. if j = i then a else f j) = (\<Sum>j<n. f j + (if j = i then a - f i else 0))"
    by (rule sum.cong) auto
  also have "\<dots> = (\<Sum>j<n. f j) + (\<Sum>j<n. if j = i then a - f i else 0)"
    by (simp add: sum.distrib)
  also have "(\<Sum>j<n. if j = i then a - f i else 0) = a - f i"
    using assms by simp
  finally show ?thesis .
qed

section \<open>The modelled inverse is the matrix inverse\<close>

subsection \<open>Rows and linear functionals\<close>

lemma unit_vector_nth: "j < d \<Longrightarrow> unit_vector d i ! j = (if j = i then 1 else 0)"
  by (auto simp: unit_vector_def nth_list_update)

lemma length_unit_vector: "length (unit_vector d i) = d"
  by (simp add: unit_vector_def)

lemma length_vscale [simp]: "length (vscale c v) = length v"
  by (simp add: vscale_def)

lemma nth_vscale: "i < length v \<Longrightarrow> vscale c v ! i = c * v ! i"
  by (simp add: vscale_def)

lemma length_eliminate [simp]: "length (eliminate k q r) = min (length r) (length q)"
  by (simp add: eliminate_def vsub_def)

lemma nth_eliminate:
  "i < length r \<Longrightarrow> i < length q \<Longrightarrow> eliminate k q r ! i = r ! i - r ! k * q ! i"
  by (simp add: eliminate_def vsub_def nth_vscale)

lemma dot2_vscale:
  assumes "length r = d + d"
  shows "dot2 d u v (vscale c r) = c * dot2 d u v r"
proof -
  have "(\<Sum>i<d. u i * vscale c r ! i) = c * (\<Sum>i<d. u i * r ! i)"
    using assms by (simp add: nth_vscale sum_distrib_left mult.left_commute)
  moreover have "(\<Sum>i<d. v i * vscale c r ! (d + i)) = c * (\<Sum>i<d. v i * r ! (d + i))"
    using assms by (simp add: nth_vscale sum_distrib_left mult.left_commute)
  ultimately show ?thesis
    by (simp add: dot2_def distrib_left)
qed

lemma dot2_eliminate:
  assumes "length r = d + d" and "length q = d + d"
  shows "dot2 d u v (eliminate k q r) = dot2 d u v r - r ! k * dot2 d u v q"
proof -
  have "(\<Sum>i<d. u i * eliminate k q r ! i)
      = (\<Sum>i<d. u i * r ! i) - r ! k * (\<Sum>i<d. u i * q ! i)"
    using assms
    by (simp add: nth_eliminate sum_distrib_left sum_subtractf right_diff_distrib mult.left_commute)
  moreover have "(\<Sum>i<d. v i * eliminate k q r ! (d + i))
      = (\<Sum>i<d. v i * r ! (d + i)) - r ! k * (\<Sum>i<d. v i * q ! (d + i))"
    using assms
    by (simp add: nth_eliminate sum_distrib_left sum_subtractf right_diff_distrib mult.left_commute)
  ultimately show ?thesis
    by (simp add: dot2_def algebra_simps)
qed

subsection \<open>The invariant through the elimination\<close>

text \<open>One elimination step keeps the invariant.\<close>

lemma gj_inv_step:
  assumes inv: "gj_inv d orig W reduced pending"
    and ex: "List.extract (\<lambda>r. r ! length reduced \<noteq> 0) pending = Some (pre, p, post)"
  defines "k \<equiv> length reduced"
  defines "q \<equiv> vscale (1 / p ! k) p"
  shows "gj_inv d orig W (map (eliminate k q) reduced @ [q]) (map (eliminate k q) (pre @ post))"
proof -
  from ex have pend: "pending = pre @ p # post" and pk: "p ! k \<noteq> 0"
    by (simp_all add: extract_Some_iff k_def)
  from inv have ok: "rows_ok d reduced pending" and piv: "pivots_ok reduced pending"
    and span: "\<And>u v. annihilates d u v (reduced @ pending) \<Longrightarrow> annihilates d u v orig"
    and ann: "\<And>u v. (u, v) \<in> W \<Longrightarrow> annihilates d u v (reduced @ pending)"
    by (auto simp: gj_inv_def)
  have len: "length r = d + d" if "r \<in> set reduced \<or> r \<in> set pre \<or> r = p \<or> r \<in> set post" for r
    using ok that by (auto simp: rows_ok_def pend)
  have kd: "k < d"
    using ok by (simp add: rows_ok_def pend k_def)
  have lq: "length q = d + d"
    by (simp add: q_def len)
  have qk: "q ! k = 1"
    using pk kd by (simp add: q_def nth_vscale len)
  have pj: "p ! j = 0" if "j < k" for j
    using piv that by (simp add: pivots_ok_def pend k_def)
  have qj: "q ! j = 0" if "j < k" for j
    using that kd by (simp add: q_def nth_vscale len pj)
  have p_q: "dot2 d u v p = p ! k * dot2 d u v q" for u v
    using pk by (simp add: q_def dot2_vscale len)
  have el: "dot2 d u v (eliminate k q r) = dot2 d u v r - r ! k * dot2 d u v q"
    if "r \<in> set reduced \<or> r \<in> set pre \<or> r \<in> set post" for r u v
    using that by (intro dot2_eliminate lq len) blast
  let ?red' = "map (eliminate k q) reduced @ [q]"
  let ?pen' = "map (eliminate k q) (pre @ post)"
  have 1: "rows_ok d ?red' ?pen'"
    using ok by (auto simp: rows_ok_def pend lq)
  have piv1: "reduced ! i ! j = (if i = j then 1 else 0)" if "i < k" "j < k" for i j
    using piv that by (simp add: pivots_ok_def k_def)
  have piv2: "t ! j = 0" if "t \<in> set pending" "j < k" for t j
    using piv that by (simp add: pivots_ok_def k_def)
  have lred: "length ?red' = Suc k"
    by (simp add: k_def)
  have red_lt: "?red' ! i = eliminate k q (reduced ! i)" "reduced ! i \<in> set reduced"
    if "i < k" for i
    using that by (simp_all add: nth_append k_def)
  have red_k: "?red' ! k = q"
    by (simp add: nth_append k_def)
  have 2: "pivots_ok ?red' ?pen'"
    unfolding pivots_ok_def lred
  proof (intro conjI allI impI ballI)
    fix i j assume i: "i < Suc k" and j: "j < Suc k"
    have jd: "j < d + d"
      using j kd by simp
    show "?red' ! i ! j = (if i = j then 1 else 0)"
    proof (cases "i < k")
      case True
      have lr: "length (reduced ! i) = d + d"
        using len[of "reduced ! i"] red_lt(2)[OF True] by blast
      have e: "?red' ! i ! j = reduced ! i ! j - reduced ! i ! k * q ! j"
        unfolding red_lt(1)[OF True] using jd by (simp add: nth_eliminate lr lq)
      show ?thesis
      proof (cases "j < k")
        case jk: True
        show ?thesis
          unfolding e by (simp add: qj[OF jk] piv1[OF True jk])
      next
        case False
        with j have "j = k" by simp
        with True show ?thesis
          unfolding e by (simp add: qk)
      qed
    next
      case False
      with i have ik: "i = k" by simp
      show ?thesis
      proof (cases "j < k")
        case True
        with ik show ?thesis by (simp add: red_k qj)
      next
        case False
        with j have "j = k" by simp
        with ik show ?thesis by (simp add: red_k qk)
      qed
    qed
  next
    fix t j assume t: "t \<in> set ?pen'" and j: "j < Suc k"
    from t obtain r where r: "r \<in> set pre \<or> r \<in> set post" and tr: "t = eliminate k q r"
      by auto
    have jd: "j < d + d"
      using j kd by simp
    have lr: "length r = d + d"
      using len[of r] r by blast
    have e: "t ! j = r ! j - r ! k * q ! j"
      unfolding tr using jd by (simp add: nth_eliminate lr lq)
    have rp: "r \<in> set pending"
      using r by (auto simp: pend)
    show "t ! j = 0"
    proof (cases "j < k")
      case True
      show ?thesis
        unfolding e by (simp add: qj[OF True] piv2[OF rp True])
    next
      case False
      with j have "j = k" by simp
      then show ?thesis unfolding e by (simp add: qk)
    qed
  qed
  have 3: "annihilates d u v orig" if a: "annihilates d u v (?red' @ ?pen')" for u v
  proof (rule span)
    from a have q0: "dot2 d u v q = 0"
      by (simp add: annihilates_def)
    have "dot2 d u v r = 0" if "r \<in> set reduced \<or> r \<in> set pre \<or> r \<in> set post" for r
    proof -
      have "eliminate k q r \<in> set (?red' @ ?pen')"
        using that by auto
      with a have "dot2 d u v (eliminate k q r) = 0"
        unfolding annihilates_def by blast
      then show ?thesis
        by (simp add: el[OF that] q0)
    qed
    moreover have "dot2 d u v p = 0"
      by (simp add: p_q q0)
    ultimately show "annihilates d u v (reduced @ pending)"
      by (auto simp: annihilates_def pend)
  qed
  have 4: "annihilates d u v (?red' @ ?pen')" if "(u, v) \<in> W" for u v
  proof -
    from ann[OF that] have old: "\<And>r. r \<in> set reduced \<or> r \<in> set pre \<or> r = p \<or> r \<in> set post
        \<Longrightarrow> dot2 d u v r = 0"
      by (auto simp: annihilates_def pend)
    have q0: "dot2 d u v q = 0"
      using old[of p] pk by (simp add: p_q)
    show ?thesis
      unfolding annihilates_def
    proof
      fix t assume "t \<in> set (?red' @ ?pen')"
      then consider "t = q" | r where "r \<in> set reduced \<or> r \<in> set pre \<or> r \<in> set post"
          "t = eliminate k q r"
        by auto
      then show "dot2 d u v t = 0"
      proof cases
        case 1
        then show ?thesis by (simp add: q0)
      next
        case (2 r)
        from 2(1) have "dot2 d u v r = 0"
          by (intro old) blast
        with 2 show ?thesis
          by (simp add: el q0)
      qed
    qed
  qed
  from 1 2 3 4 show ?thesis
    unfolding gj_inv_def by blast
qed

lemma gauss_jordan_Some:
  "gj_inv d orig W reduced pending \<Longrightarrow> gauss_jordan reduced pending = Some res
     \<Longrightarrow> gj_inv d orig W res []"
proof (induction reduced pending rule: gauss_jordan.induct)
  case (1 reduced)
  then show ?case by simp
next
  case (2 reduced t ts)
  from "2.prems"(2) obtain pre p post
    where ex: "List.extract (\<lambda>r. r ! length reduced \<noteq> 0) (t # ts) = Some (pre, p, post)"
      and rec: "gauss_jordan
          (map (eliminate (length reduced) (vscale (1 / p ! length reduced) p)) reduced
             @ [vscale (1 / p ! length reduced) p])
          (map (eliminate (length reduced) (vscale (1 / p ! length reduced) p)) (pre @ post))
        = Some res"
    by (auto simp: Let_def split: option.splits)
  show ?case
    by (rule "2.IH"[OF refl ex refl refl refl gj_inv_step[OF "2.prems"(1) ex] rec])
qed

lemma gauss_jordan_None:
  "gj_inv d orig W reduced pending \<Longrightarrow> gauss_jordan reduced pending = None
     \<Longrightarrow> \<exists>red pen. gj_inv d orig W red pen \<and> pen \<noteq> [] \<and> (\<forall>t \<in> set pen. t ! length red = 0)"
proof (induction reduced pending rule: gauss_jordan.induct)
  case (1 reduced)
  then show ?case by simp
next
  case (2 reduced t ts)
  show ?case
  proof (cases "List.extract (\<lambda>r. r ! length reduced \<noteq> 0) (t # ts)")
    case None
    then have "\<forall>r \<in> set (t # ts). r ! length reduced = 0"
      by (simp add: extract_None_iff)
    with "2.prems"(1) show ?thesis
      by (intro exI[of _ reduced] exI[of _ "t # ts"]) simp
  next
    case (Some x)
    then obtain pre p post
      where ex: "List.extract (\<lambda>r. r ! length reduced \<noteq> 0) (t # ts) = Some (pre, p, post)"
      by (cases x) auto
    with "2.prems"(2) have rec: "gauss_jordan
          (map (eliminate (length reduced) (vscale (1 / p ! length reduced) p)) reduced
             @ [vscale (1 / p ! length reduced) p])
          (map (eliminate (length reduced) (vscale (1 / p ! length reduced) p)) (pre @ post))
        = None"
      by (simp add: Let_def)
    show ?thesis
      by (rule "2.IH"[OF refl ex refl refl refl gj_inv_step[OF "2.prems"(1) ex] rec])
  qed
qed

subsection \<open>The augmented matrix and the final state\<close>

lemma square_nth: "square d A \<Longrightarrow> i < d \<Longrightarrow> length (A ! i) = d"
  by (simp add: square_def list_all_length)

lemma identity_nth: "i < d \<Longrightarrow> j < d \<Longrightarrow> identity d ! i ! j = (if i = j then 1 else 0)"
  by (auto simp: identity_def unit_vector_nth)

lemma mat_mul_eq_identity:
  "mat_mul d A B = identity d \<longleftrightarrow>
     (\<forall>i<d. \<forall>j<d. (\<Sum>k<d. A ! i ! k * B ! k ! j) = (if i = j then 1 else 0))"
proof -
  have "mat_mul d A B = identity d \<longleftrightarrow>
      (\<forall>i<d. mat_mul d A B ! i = identity d ! i)"
    by (simp add: list_eq_iff_nth_eq mat_mul_def identity_def)
  also have "\<dots> \<longleftrightarrow> (\<forall>i<d. \<forall>j<d. mat_mul d A B ! i ! j = identity d ! i ! j)"
    by (auto simp: list_eq_iff_nth_eq mat_mul_def identity_def length_unit_vector)
  also have "\<dots> \<longleftrightarrow> (\<forall>i<d. \<forall>j<d. (\<Sum>k<d. A ! i ! k * B ! k ! j) = (if i = j then 1 else 0))"
    by (simp add: identity_nth) (simp add: mat_mul_def sum_list_upt)
  finally show ?thesis .
qed

lemma is_inverseD:
  assumes "is_inverse d M N"
  shows "square d N"
    and "\<And>i j. i < d \<Longrightarrow> j < d \<Longrightarrow> (\<Sum>k<d. N ! i ! k * M ! k ! j) = (if i = j then 1 else 0)"
    and "\<And>i j. i < d \<Longrightarrow> j < d \<Longrightarrow> (\<Sum>k<d. M ! i ! k * N ! k ! j) = (if i = j then 1 else 0)"
  using assms by (simp_all add: is_inverse_def mat_mul_eq_identity)

text \<open>The rows of a square matrix augmented with the identity.\<close>

lemma augmented_rows:
  assumes "square d M"
  shows "length (map2 (@) M (identity d)) = d"
    and "\<And>i. i < d \<Longrightarrow> map2 (@) M (identity d) ! i = M ! i @ unit_vector d i"
  using assms by (simp_all add: square_def identity_def)

lemma augmented_mem:
  assumes "square d M" and "i < d"
  shows "map2 (@) M (identity d) ! i \<in> set (map2 (@) M (identity d))"
  using assms(2) augmented_rows(1)[OF assms(1)] by (metis nth_mem)

lemma dot2_augmented:
  assumes "length a = d" and "i < d"
  shows "dot2 d u v (a @ unit_vector d i) = (\<Sum>j<d. u j * a ! j) + v i"
proof -
  have "(\<Sum>j<d. v j * (a @ unit_vector d i) ! (d + j)) = (\<Sum>j<d. if j = i then v j else 0)"
    using assms by (intro sum.cong) (auto simp: nth_append unit_vector_nth)
  also have "\<dots> = v i"
    using assms by simp
  finally show ?thesis
    using assms by (simp add: dot2_def nth_append)
qed

lemma gj_inv_init:
  assumes "square d M" and "\<forall>(u, v) \<in> W. annihilates d u v (map2 (@) M (identity d))"
  shows "gj_inv d (map2 (@) M (identity d)) W [] (map2 (@) M (identity d))"
proof -
  have "length r = d + d" if "r \<in> set (map2 (@) M (identity d))" for r
  proof -
    from that obtain i where "i < d" "r = M ! i @ unit_vector d i"
      using augmented_rows[OF assms(1)] by (metis in_set_conv_nth)
    then show ?thesis
      using square_nth[OF assms(1)] by (simp add: length_unit_vector)
  qed
  then show ?thesis
    using assms augmented_rows(1)[OF assms(1)]
    by (simp add: gj_inv_def rows_ok_def pivots_ok_def)
qed

text \<open>What the invariant says when no row is pending.\<close>

lemma gj_inv_final:
  assumes "gj_inv d orig W res []"
  shows "length res = d"
    and "\<And>i. i < d \<Longrightarrow> length (res ! i) = d + d"
    and "\<And>i j. i < d \<Longrightarrow> j < d \<Longrightarrow> res ! i ! j = (if i = j then 1 else 0)"
    and "\<And>u v. annihilates d u v res \<Longrightarrow> annihilates d u v orig"
    and "\<And>u v. (u, v) \<in> W \<Longrightarrow> annihilates d u v res"
  using assms by (auto simp: gj_inv_def rows_ok_def pivots_ok_def)

lemma dot2_final:
  assumes "length r = d + d" and "i < d" and "\<And>j. j < d \<Longrightarrow> r ! j = (if i = j then 1 else 0)"
  shows "dot2 d u v r = u i + (\<Sum>j<d. v j * drop d r ! j)"
proof -
  have "(\<Sum>j<d. u j * r ! j) = (\<Sum>j<d. if j = i then u j else 0)"
    using assms by (intro sum.cong) auto
  also have "\<dots> = u i"
    using assms by simp
  finally show ?thesis
    using assms by (simp add: dot2_def)
qed

lemma matrix_inverse_unfold:
  assumes "square d M"
  shows "matrix_inverse M = map_option (map (drop d)) (gauss_jordan [] (map2 (@) M (identity d)))"
  using assms by (simp add: matrix_inverse_def square_def Let_def)

subsection \<open>Soundness and completeness\<close>

text \<open>A matrix that \<open>matrix_inverse\<close> returns is a two-sided inverse.\<close>

theorem matrix_inverse_sound:
  assumes sq: "square d M" and inv: "matrix_inverse M = Some B"
  shows "is_inverse d M B"
proof -
  let ?A = "map2 (@) M (identity d)"
  define W :: "((nat \<Rightarrow> real) \<times> (nat \<Rightarrow> real)) set" where "W = {(u, v). \<exists>j<d. u = (\<lambda>i. if i = j then 1 else 0) \<and> v = (\<lambda>k. - M ! k ! j)}"
  from inv obtain res where gj: "gauss_jordan [] ?A = Some res" and B: "B = map (drop d) res"
    unfolding matrix_inverse_unfold[OF sq] by auto
  have row: "\<exists>i<d. r = M ! i @ unit_vector d i" if "r \<in> set ?A" for r
    using that augmented_rows[OF sq] by (metis in_set_conv_nth)
  have "annihilates d u v ?A" if "(u, v) \<in> W" for u v
    unfolding annihilates_def
  proof
    fix r assume "r \<in> set ?A"
    then obtain i where i: "i < d" and r: "r = M ! i @ unit_vector d i"
      using row by blast
    from that obtain j where j: "j < d" and u: "u = (\<lambda>i. if i = j then 1 else 0)"
      and v: "v = (\<lambda>k. - M ! k ! j)"
      by (auto simp: W_def)
    have "(\<Sum>t<d. u t * M ! i ! t) = (\<Sum>t<d. if t = j then M ! i ! t else 0)"
      unfolding u by (intro sum.cong) auto
    also have "\<dots> = M ! i ! j"
      using j by simp
    finally show "dot2 d u v r = 0"
      unfolding r by (simp add: dot2_augmented[OF square_nth[OF sq i] i] v)
  qed
  then have "gj_inv d ?A W [] ?A"
    by (intro gj_inv_init[OF sq]) auto
  from gauss_jordan_Some[OF this gj] have fin: "gj_inv d ?A W res []" .
  note f = gj_inv_final[OF fin]
  have Bi: "B ! i = drop d (res ! i)" if "i < d" for i
    using that f(1) by (simp add: B)
  have dotres: "dot2 d u v (res ! i) = u i + (\<Sum>j<d. v j * B ! i ! j)" if "i < d" for i u v
    using dot2_final[OF f(2)[OF that] that f(3)[OF that]] by (simp add: Bi[OF that])
  have mem: "res ! i \<in> set res" if "i < d" for i
    using that f(1) by simp
  have "square d B"
    using f(1,2) by (simp add: square_def B list_all_length)
  moreover have "(\<Sum>k<d. B ! i ! k * M ! k ! j) = (if i = j then 1 else 0)"
    if i: "i < d" and j: "j < d" for i j
  proof -
    have "((\<lambda>i. if i = j then 1 else 0), (\<lambda>k. - M ! k ! j)) \<in> W"
      using j by (auto simp: W_def)
    from f(5)[OF this] mem[OF i]
    have "dot2 d (\<lambda>i. if i = j then 1 else 0) (\<lambda>k. - M ! k ! j) (res ! i) = 0"
      unfolding annihilates_def by blast
    then have "(if i = j then 1 else 0) - (\<Sum>k<d. M ! k ! j * B ! i ! k) = 0"
      by (simp add: dotres[OF i] sum_negf)
    then show ?thesis
      by (simp add: mult.commute)
  qed
  moreover have "(\<Sum>k<d. M ! i ! k * B ! k ! j) = (if i = j then 1 else 0)"
    if i: "i < d" and j: "j < d" for i j
  proof -
    let ?u = "\<lambda>i. B ! i ! j" and ?v = "\<lambda>k. if k = j then - 1 else (0 :: real)"
    have "annihilates d ?u ?v res"
      unfolding annihilates_def
    proof
      fix r assume "r \<in> set res"
      then obtain s where s: "s < d" and r: "r = res ! s"
        using f(1) by (metis in_set_conv_nth)
      have "(\<Sum>k<d. ?v k * B ! s ! k) = (\<Sum>k<d. if k = j then - B ! s ! k else 0)"
        by (intro sum.cong) auto
      also have "\<dots> = - B ! s ! j"
        using j by simp
      finally show "dot2 d ?u ?v r = 0"
        unfolding r by (simp add: dotres[OF s])
    qed
    from f(4)[OF this] have "dot2 d ?u ?v (?A ! i) = 0"
      using augmented_mem[OF sq i] unfolding annihilates_def by blast
    then have "(\<Sum>k<d. B ! k ! j * M ! i ! k) + (if i = j then - 1 else 0) = 0"
      by (simp add: augmented_rows(2)[OF sq i] dot2_augmented[OF square_nth[OF sq i] i])
    then show ?thesis
      by (simp add: mult.commute split: if_splits)
  qed
  ultimately show ?thesis
    by (simp add: is_inverse_def mat_mul_eq_identity)
qed

text \<open>When \<open>matrix_inverse\<close> fails, the matrix has a non-trivial kernel.\<close>

theorem matrix_inverse_None:
  assumes sq: "square d M" and inv: "matrix_inverse M = None"
  shows "\<exists>v. (\<exists>k<d. v k \<noteq> 0) \<and> (\<forall>i<d. (\<Sum>j<d. M ! i ! j * v j) = 0)"
proof -
  let ?A = "map2 (@) M (identity d)"
  from inv have gj: "gauss_jordan [] ?A = None"
    unfolding matrix_inverse_unfold[OF sq] by simp
  have "gj_inv d ?A {} [] ?A"
    by (intro gj_inv_init[OF sq]) simp
  from gauss_jordan_None[OF this gj] obtain red pen
    where inv': "gj_inv d ?A {} red pen" and ne: "pen \<noteq> []"
      and zero: "\<And>t. t \<in> set pen \<Longrightarrow> t ! length red = 0"
    by blast
  define k where "k = length red"
  define u where "u = (\<lambda>i. if i = k then 1 else if i < k then - red ! i ! k else 0)"
  from inv' ne have kd: "k < d"
    by (cases pen) (auto simp: gj_inv_def rows_ok_def k_def)
  from inv' have piv1: "\<And>i j. i < k \<Longrightarrow> j < k \<Longrightarrow> red ! i ! j = (if i = j then 1 else 0)"
    and piv2: "\<And>t j. t \<in> set pen \<Longrightarrow> j < k \<Longrightarrow> t ! j = 0"
    and span: "\<And>u v. annihilates d u v (red @ pen) \<Longrightarrow> annihilates d u v ?A"
    by (auto simp: gj_inv_def pivots_ok_def k_def)
  have "annihilates d u (\<lambda>_. 0) (red @ pen)"
    unfolding annihilates_def
  proof
    fix r assume "r \<in> set (red @ pen)"
    then consider s where "s < k" "r = red ! s" | "r \<in> set pen"
      by (auto simp: in_set_conv_nth k_def)
    then show "dot2 d u (\<lambda>_. 0) r = 0"
    proof cases
      case (1 s)
      have "(\<Sum>i<d. u i * r ! i)
          = (\<Sum>i<d. (if i = k then red ! s ! k else 0) + (if i = s then - red ! s ! k else 0))"
        using 1 by (intro sum.cong) (auto simp: u_def piv1)
      also have "\<dots> = 0"
        using kd 1(1) by (simp add: sum.distrib)
      finally show ?thesis
        by (simp add: dot2_def)
    next
      case 2
      have "(\<Sum>i<d. u i * r ! i) = (\<Sum>i<d. 0)"
        using zero[OF 2] piv2[OF 2] by (intro sum.cong) (auto simp: u_def k_def)
      then show ?thesis
        by (simp add: dot2_def)
    qed
  qed
  from span[OF this] have "dot2 d u (\<lambda>_. 0) (?A ! i) = 0" if "i < d" for i
    using augmented_mem[OF sq that] unfolding annihilates_def by blast
  then have "(\<Sum>j<d. M ! i ! j * u j) = 0" if "i < d" for i
    using that
    by (simp add: augmented_rows(2)[OF sq] dot2_augmented[OF square_nth[OF sq]] mult.commute)
  moreover have "u k \<noteq> 0"
    by (simp add: u_def)
  ultimately show ?thesis
    using kd by blast
qed

text \<open>A matrix with a left inverse has a trivial kernel.\<close>

lemma left_inverse_kernel:
  assumes left: "\<And>i j. i < d \<Longrightarrow> j < d \<Longrightarrow> (\<Sum>k<d. N ! i ! k * M ! k ! j) = (if i = j then 1 else 0)"
    and ker: "\<And>i. i < d \<Longrightarrow> (\<Sum>j<d. M ! i ! j * v j) = 0"
    and k: "k < d"
  shows "v k = (0 :: real)"
proof -
  have "(\<Sum>j<d. (if k = j then 1 else 0) * v j) = (\<Sum>j<d. if k = j then v j else 0)"
    by (intro sum.cong) auto
  also have "\<dots> = v k"
    using k by simp
  finally have "v k = (\<Sum>j<d. (if k = j then 1 else 0) * v j)"
    by simp
  also have "\<dots> = (\<Sum>j<d. (\<Sum>r<d. N ! k ! r * M ! r ! j) * v j)"
    using k by (intro sum.cong) (simp_all add: left)
  also have "\<dots> = (\<Sum>j<d. \<Sum>r<d. N ! k ! r * (M ! r ! j * v j))"
    by (simp add: sum_distrib_right mult.assoc)
  also have "\<dots> = (\<Sum>r<d. \<Sum>j<d. N ! k ! r * (M ! r ! j * v j))"
    by (rule sum.swap)
  also have "\<dots> = (\<Sum>r<d. N ! k ! r * (\<Sum>j<d. M ! r ! j * v j))"
    by (simp add: sum_distrib_left)
  also have "\<dots> = 0"
    by (simp add: ker)
  finally show ?thesis .
qed

text \<open>\<open>matrix_inverse\<close> finds the inverse whenever there is one.\<close>

theorem matrix_inverse_complete:
  assumes sq: "square d M" and inv: "is_inverse d M N"
  shows "matrix_inverse M = Some N"
proof -
  let ?A = "map2 (@) M (identity d)"
  note N = is_inverseD[OF inv]
  define W :: "((nat \<Rightarrow> real) \<times> (nat \<Rightarrow> real)) set"
    where "W = {(u, v). \<exists>j<d. u = (\<lambda>i. - N ! i ! j) \<and> v = (\<lambda>k. if k = j then 1 else 0)}"
  have "matrix_inverse M \<noteq> None"
  proof
    assume "matrix_inverse M = None"
    from matrix_inverse_None[OF sq this] obtain v k
      where "k < d" "v k \<noteq> 0" "\<And>i. i < d \<Longrightarrow> (\<Sum>j<d. M ! i ! j * v j) = 0"
      by blast
    with left_inverse_kernel[of d N M v k] N(2) show False
      by blast
  qed
  then obtain res where gj: "gauss_jordan [] ?A = Some res"
    and B: "matrix_inverse M = Some (map (drop d) res)"
    unfolding matrix_inverse_unfold[OF sq] by auto
  have row: "\<exists>i<d. r = M ! i @ unit_vector d i" if "r \<in> set ?A" for r
    using that augmented_rows[OF sq] by (metis in_set_conv_nth)
  have "annihilates d u v ?A" if "(u, v) \<in> W" for u v
    unfolding annihilates_def
  proof
    fix r assume "r \<in> set ?A"
    then obtain i where i: "i < d" and r: "r = M ! i @ unit_vector d i"
      using row by blast
    from that obtain j where j: "j < d" and u: "u = (\<lambda>i. - N ! i ! j)"
      and v: "v = (\<lambda>k. if k = j then 1 else 0)"
      by (auto simp: W_def)
    have "(\<Sum>t<d. u t * M ! i ! t) = - (\<Sum>t<d. M ! i ! t * N ! t ! j)"
      unfolding u by (simp add: sum_negf mult.commute)
    then show "dot2 d u v r = 0"
      unfolding r using i j
      by (simp add: dot2_augmented[OF square_nth[OF sq i] i] v N(3))
  qed
  then have "gj_inv d ?A W [] ?A"
    by (intro gj_inv_init[OF sq]) auto
  from gauss_jordan_Some[OF this gj] have fin: "gj_inv d ?A W res []" .
  note f = gj_inv_final[OF fin]
  have mem: "res ! i \<in> set res" if "i < d" for i
    using that f(1) by simp
  have entry: "drop d (res ! i) ! j = N ! i ! j" if i: "i < d" and j: "j < d" for i j
  proof -
    let ?u = "\<lambda>i. - N ! i ! j" and ?v = "\<lambda>k. if k = j then 1 else (0 :: real)"
    have "(?u, ?v) \<in> W"
      using j by (auto simp: W_def)
    from f(5)[OF this] mem[OF i] have "dot2 d ?u ?v (res ! i) = 0"
      unfolding annihilates_def by blast
    moreover have "(\<Sum>k<d. ?v k * drop d (res ! i) ! k)
        = (\<Sum>k<d. if k = j then drop d (res ! i) ! k else 0)"
      by (intro sum.cong) auto
    ultimately show ?thesis
      using j by (simp add: dot2_final[OF f(2)[OF i] i f(3)[OF i]])
  qed
  have "map (drop d) res = N"
  proof (rule nth_equalityI)
    show "length (map (drop d) res) = length N"
      using f(1) N(1) by (simp add: square_def)
  next
    fix i assume "i < length (map (drop d) res)"
    then have i: "i < d"
      using f(1) by simp
    have "drop d (res ! i) = N ! i"
      using entry[OF i] f(2)[OF i] square_nth[OF N(1) i] by (intro nth_equalityI) simp_all
    then show "map (drop d) res ! i = N ! i"
      using i f(1) by simp
  qed
  with B show ?thesis by simp
qed

section \<open>Estimation cost\<close>

subsection \<open>Concrete inputs\<close>

lemmas linalg_eval =
  matrix_inverse_def identity_def unit_vector_def zeros_def outer_def mat_scale_def
  iadd_def trace_def extract_def eliminate_def vscale_def vsub_def accumulate_def

lemma example1_estimation_cost:
  "estimation_cost [1, 1] [[1], [1]] [Finite a, Finite b] = Inr (Finite (1 / 2 + (a * a + b * b)))"
  by (simp add: estimation_cost_def linalg_eval fsum_def upt_rec)

subsection \<open>The sign of the perturbation\<close>

lemma D_cost_fneg:
  assumes "n \<le> length D"
  shows "map (\<lambda>i. fdiv (fsquare (map fneg D ! i)) (L ! i)) [0..<n]
       = map (\<lambda>i. fdiv (fsquare (D ! i)) (L ! i)) [0..<n]"
  using assms by (auto simp: fsquare_fneg)

lemma estimation_cost_fneg: "estimation_cost L X (map fneg D) = estimation_cost L X D"
  by (auto simp: estimation_cost_def Let_def D_cost_fneg split: list.splits sum.splits option.splits)

section \<open>Potential function\<close>

lemma potential_fneg: "potential L X (map fneg D) exponents = potential L X D exponents"
  by (simp add: potential_def estimation_cost_fneg)

lemma privacy_cost_pos: "0 < l \<Longrightarrow> privacy_cost l e = Finite (l powr e)"
  by (simp add: privacy_cost_def np_power_def)

lemma indiv_cost_pos:
  assumes "\<forall>l \<in> set L. 0 < l"
  shows "fsum (map (\<lambda>i. privacy_cost (L ! i) (E ! i)) [0..<length L])
       = Finite (\<Sum>i<length L. L ! i powr E ! i)"
proof -
  have "map (\<lambda>i. privacy_cost (L ! i) (E ! i)) [0..<length L]
      = map Finite (map (\<lambda>i. L ! i powr E ! i) [0..<length L])"
    using assms by (simp add: privacy_cost_pos)
  then show ?thesis
    by (simp only: fsum_Finite sum_list_upt)
qed

lemma potential_pos:
  assumes "\<forall>l \<in> set L. 0 < l" and "length L \<le> length E"
    and "estimation_cost L X D = Inr (Finite c)"
  shows "potential L X D E = Inr (Finite (c + (\<Sum>i<length L. L ! i powr E ! i)))"
  using assms(2,3) by (simp add: potential_def indiv_cost_pos[OF assms(1)])

text \<open>
  Claim C2. For strictly positive precisions and one exponent per agent, the potential is
  the estimation cost plus the sum of the agents' privacy costs \<open>L\<^sub>i powr exponents\<^sub>i\<close>
  (and raises what the estimation cost raises). Replacing one coordinate \<open>L\<^sub>i\<close> by a
  positive \<open>v\<close> leaves the privacy cost of every other agent as it was, and, where both
  estimation costs are finite, the potential changes by the change of the estimation cost
  plus the change of agent \<open>i\<close>'s privacy cost.
\<close>

theorem potential_separable:
  assumes "\<forall>l \<in> set L. 0 < l" and "length L \<le> length exponents"
  shows "(\<forall>i<length L. privacy_cost (L ! i) (exponents ! i) = Finite (L ! i powr exponents ! i)) \<and>
         potential L X D exponents =
           (case estimation_cost L X D of
              Inl e \<Rightarrow> Inl e
            | Inr c \<Rightarrow> Inr (fadd c (Finite (\<Sum>i<length L. L ! i powr exponents ! i)))) \<and>
         (\<forall>i v c c'. i < length L \<longrightarrow> 0 < v \<longrightarrow>
            estimation_cost L X D = Inr (Finite c) \<longrightarrow>
            estimation_cost (L[i := v]) X D = Inr (Finite c') \<longrightarrow>
            (\<forall>j<length L. j \<noteq> i \<longrightarrow>
               privacy_cost (L[i := v] ! j) (exponents ! j) = privacy_cost (L ! j) (exponents ! j)) \<and>
            (\<exists>p p'. potential L X D exponents = Inr (Finite p) \<and>
                    potential (L[i := v]) X D exponents = Inr (Finite p') \<and>
                    p' - p = (c' - c) + (v powr exponents ! i - L ! i powr exponents ! i)))"
proof (intro conjI allI impI)
  fix i assume "i < length L"
  with assms(1) show "privacy_cost (L ! i) (exponents ! i) = Finite (L ! i powr exponents ! i)"
    by (simp add: privacy_cost_pos)
next
  show "potential L X D exponents =
      (case estimation_cost L X D of
         Inl e \<Rightarrow> Inl e
       | Inr c \<Rightarrow> Inr (fadd c (Finite (\<Sum>i<length L. L ! i powr exponents ! i))))"
    using assms(2)
    by (simp add: potential_def indiv_cost_pos[OF assms(1)] fadd_commute split: sum.splits)
next
  fix i v c c' j
  assume "i < length L" "j < length L" "j \<noteq> i"
  then show "privacy_cost (L[i := v] ! j) (exponents ! j) = privacy_cost (L ! j) (exponents ! j)"
    by simp
next
  fix i v c c'
  assume i: "i < length L" and v: "0 < v"
    and c: "estimation_cost L X D = Inr (Finite c)"
    and c': "estimation_cost (L[i := v]) X D = Inr (Finite c')"
  have pos': "\<forall>l \<in> set (L[i := v]). 0 < l"
    using assms(1) v by (auto dest!: set_update_subset_insert[THEN subsetD])
  have "potential (L[i := v]) X D exponents
      = Inr (Finite (c' + (\<Sum>j<length (L[i := v]). L[i := v] ! j powr exponents ! j)))"
    using assms(2) c' by (intro potential_pos[OF pos']) simp_all
  moreover have "(\<Sum>j<length (L[i := v]). L[i := v] ! j powr exponents ! j)
      = (\<Sum>j<length L. if j = i then v powr exponents ! i else L ! j powr exponents ! j)"
    by (auto intro!: sum.cong simp: nth_list_update)
  ultimately have "potential (L[i := v]) X D exponents
      = Inr (Finite (c' + ((\<Sum>j<length L. L ! j powr exponents ! j)
                            + (v powr exponents ! i - L ! i powr exponents ! i))))"
    by (simp add: sum_update[OF i])
  with potential_pos[OF assms c]
  show "\<exists>p p'. potential L X D exponents = Inr (Finite p) \<and>
               potential (L[i := v]) X D exponents = Inr (Finite p') \<and>
               p' - p = (c' - c) + (v powr exponents ! i - L ! i powr exponents ! i)"
    by simp
qed

text \<open>The theorem at a concrete input.\<close>

theorem potential_separable_witness:
  "list_all (\<lambda>l. 0 < l) [1, 1 :: real] \<and>
   length [1, 1 :: real] \<le> length [101 / 100, 20 :: real] \<and>
   estimation_cost [1, 1] [[1], [1]] [Finite 1, Finite (- 1)] = Inr (Finite (5 / 2)) \<and>
   potential [1, 1] [[1], [1]] [Finite 1, Finite (- 1)] [101 / 100, 20] = Inr (Finite (9 / 2)) \<and>
   (\<exists>p p'.
      potential [1, 1] [[1], [1]] [Finite 1, Finite (- 1)] [101 / 100, 20] = Inr (Finite p) \<and>
      potential [1, 1 / 2] [[1], [1]] [Finite 1, Finite (- 1)] [101 / 100, 20] = Inr (Finite p') \<and>
      p' - p = (11 / 3 - 5 / 2) + ((1 / 2) powr 20 - 1 powr 20))"
proof -
  have h1: "\<forall>l \<in> set [1, 1 :: real]. 0 < l" by simp
  have h2: "length [1, 1 :: real] \<le> length [101 / 100, 20 :: real]" by simp
  have h3: "estimation_cost [1, 1] [[1], [1]] [Finite 1, Finite (- 1)] = Inr (Finite (5 / 2))"
    by (simp add: example1_estimation_cost)
  have h4: "estimation_cost ([1, 1][1 := 1 / 2]) [[1], [1]] [Finite 1, Finite (- 1)]
              = Inr (Finite (11 / 3))"
    by (simp add: estimation_cost_def linalg_eval fsum_def upt_rec)
  note sep = potential_separable[OF h1 h2, of "[[1], [1]]" "[Finite 1, Finite (- 1)]"]
  from sep h3 have p: "potential [1, 1] [[1], [1]] [Finite 1, Finite (- 1)] [101 / 100, 20]
      = Inr (Finite (5 / 2 + (\<Sum>i<length [1, 1 :: real]. [1, 1] ! i powr [101 / 100, 20] ! i)))"
    by simp
  have "\<exists>p0 p'.
      potential [1, 1] [[1], [1]] [Finite 1, Finite (- 1)] [101 / 100, 20] = Inr (Finite p0) \<and>
      potential ([1, 1][1 := 1 / 2]) [[1], [1]] [Finite 1, Finite (- 1)] [101 / 100, 20]
        = Inr (Finite p') \<and>
      p' - p0 = (11 / 3 - 5 / 2)
                + ((1 / 2) powr [101 / 100, 20] ! 1 - [1, 1] ! 1 powr [101 / 100, 20] ! 1)"
    using sep[THEN conjunct2, THEN conjunct2, rule_format, of 1 "1 / 2" "5 / 2" "11 / 3"] h3 h4
    by simp
  then have d: "\<exists>p p'.
      potential [1, 1] [[1], [1]] [Finite 1, Finite (- 1)] [101 / 100, 20] = Inr (Finite p) \<and>
      potential [1, 1 / 2] [[1], [1]] [Finite 1, Finite (- 1)] [101 / 100, 20] = Inr (Finite p') \<and>
      p' - p = (11 / 3 - 5 / 2) + ((1 / 2) powr 20 - 1 powr 20)"
    by (simp only: list_update_code nth_Cons_Suc nth_Cons_0 One_nat_def)
  have s: "(\<Sum>i<length [1, 1 :: real]. [1, 1] ! i powr [101 / 100, 20] ! i) = (2 :: real)"
    by (simp add: lessThan_Suc)
  from p have "potential [1, 1] [[1], [1]] [Finite 1, Finite (- 1)] [101 / 100, 20]
      = Inr (Finite (9 / 2))"
    unfolding s by simp
  moreover have "list_all (\<lambda>l. 0 < l) [1, 1 :: real]"
    by simp
  ultimately show ?thesis
    using d h2 h3 by blast
qed

section \<open>Equilibrium solver\<close>

text \<open>
  Claim C10. The estimation cost depends on the perturbation only through its squares:
  negating every entry of \<open>D\<close> leaves \<open>estimation_cost\<close> unchanged, for every \<open>L\<close> and
  \<open>X\<close> (also where the cost is an error or not finite). The objective handed to the
  optimiser is then the same function, so \<open>covarianceEquilibrium\<close> returns the same result
  for \<open>D\<close> and for \<open>-D\<close>.
\<close>

theorem estimation_cost_sign_symmetric:
  "estimation_cost L X (map fneg D) = estimation_cost L X D \<and>
   covarianceEquilibrium minimize X (map fneg D) exponents
     = covarianceEquilibrium minimize X D exponents"
  by (simp add: covarianceEquilibrium_def estimation_cost_fneg potential_fneg
        cong: sum.case_cong)

lemma example1_potential:
  "potential [1, 1] [[1], [1]] [Finite a, Finite b] [101 / 100, 20]
     = Inr (Finite (5 / 2 + (a * a + b * b)))"
  by (simp add: potential_def example1_estimation_cost privacy_cost_def np_power_def fsum_def upt_rec)

lemma example1_solve:
  "covarianceEquilibrium clipped_start [[1], [1]] [Finite a, Finite b] [101 / 100, 20]
     = Inr (Finite (1 / 2 + (a * a + b * b)), [1, 1])"
  by (simp add: covarianceEquilibrium_def clipped_start_def example1_potential
        example1_estimation_cost upt_rec)

text \<open>
  Claim C3. When \<open>covarianceEquilibrium\<close> returns a pair \<open>(c, Ls)\<close>, the vector \<open>Ls\<close> is the
  point the optimiser returned for the potential, started from the all-ones vector, and
  \<open>c\<close> is the estimation cost evaluated at \<open>Ls\<close>.
\<close>

theorem covarianceEquilibrium_cost:
  assumes "covarianceEquilibrium minimize X D exponents = Inr (c, Ls)"
  shows "estimation_cost Ls X D = Inr c \<and>
         minimize (\<lambda>L. potential L X D exponents) (replicate (length X) 1)
           (map (\<lambda>i. (1 / 10 ^ 10, 1)) [0..<length X]) (1 / 10 ^ 20) = Inr Ls"
  using assms by (auto simp: covarianceEquilibrium_def Let_def split: sum.splits)

text \<open>The theorem at a concrete input.\<close>

theorem covarianceEquilibrium_cost_witness:
  "covarianceEquilibrium clipped_start [[1], [1]] [Finite 1, Finite (- 1)] [101 / 100, 20]
     = Inr (Finite (5 / 2), [1, 1]) \<and>
   estimation_cost [1, 1] [[1], [1]] [Finite 1, Finite (- 1)] = Inr (Finite (5 / 2))"
proof -
  have h: "covarianceEquilibrium clipped_start [[1], [1]] [Finite 1, Finite (- 1)] [101 / 100, 20]
             = Inr (Finite (5 / 2), [1, 1])"
    by (simp add: example1_solve)
  from covarianceEquilibrium_cost[OF h] h show ?thesis by simp
qed

section \<open>Sweep driver\<close>

lemma comprehension_Inr_iff:
  "comprehension f xs = Inr ys \<longleftrightarrow>
     length ys = length xs \<and> (\<forall>i<length xs. f (xs ! i) = Inr (ys ! i))"
proof (induction xs arbitrary: ys)
  case Nil
  then show ?case by auto
next
  case (Cons x xs)
  show ?case
  proof (cases ys)
    case Nil
    then show ?thesis by (auto split: sum.splits)
  next
    case (Cons y ys')
    then show ?thesis
      using Cons.IH[of ys']
      by (auto simp: less_Suc_eq_0_disj split: sum.splits)
  qed
qed

lemma linspace_100: "linspace 0 m 100 = map (\<lambda>i. real i * (m / 99)) [0..<100]"
proof -
  have "(map (\<lambda>i. real i * (m / 99)) [0..<100])[99 := m] = map (\<lambda>i. real i * (m / 99)) [0..<100]"
    by (rule nth_equalityI) (auto simp: nth_list_update simp del: upt_Suc)
  then show ?thesis
    by (simp add: linspace_def del: upt_Suc)
qed

text \<open>The triple that the sweep returns.\<close>

lemma compute_for_example_Inr_iff:
  assumes "0 \<le> deltaMax"
  shows "compute_for_example minimize deltaMax example_number = Inr (deltas, costs, precisions) \<longleftrightarrow>
           deltas = map (\<lambda>i. real i * (deltaMax / 99)) [0..<100] \<and>
           length costs = 100 \<and> length precisions = 100 \<and>
           (\<forall>i<100.
              covarianceEquilibrium minimize (X_1D_examples example_number)
                (map (\<lambda>v. Finite (sqrt (deltas ! i) * v))
                   (concat (perturbation_matrix_1Dexamples example_number)))
                (exponents_1D_examples example_number)
              = Inr (costs ! i, precisions ! i))"
    (is "?lhs \<longleftrightarrow> ?rhs")
proof -
  let ?ds = "map (\<lambda>i. real i * (deltaMax / 99)) [0..<100]"
  let ?D = "concat (perturbation_matrix_1Dexamples example_number)"
  let ?solve = "\<lambda>delta. covarianceEquilibrium minimize (X_1D_examples example_number)
                  (map (fscale (np_sqrt delta)) ?D) (exponents_1D_examples example_number)"
  let ?solve' = "\<lambda>delta. covarianceEquilibrium minimize (X_1D_examples example_number)
                  (map (\<lambda>v. Finite (sqrt delta * v)) ?D) (exponents_1D_examples example_number)"
  have nonneg: "0 \<le> ?ds ! i" if "i < 100" for i
    using that assms by (simp del: upt_Suc)
  have solve: "?solve (?ds ! i) = ?solve' (?ds ! i)" if "i < 100" for i
    using nonneg[OF that] by (simp add: np_sqrt_nonneg fscale_Finite del: upt_Suc)
  have unfold: "compute_for_example minimize deltaMax example_number =
      (case comprehension ?solve ?ds of
         Inl e \<Rightarrow> Inl e
       | Inr cps \<Rightarrow> Inr (?ds, map fst cps, map snd cps))"
    by (simp only: compute_for_example_def linspace_100 Let_def)
  show ?thesis
  proof
    assume ?lhs
    then obtain cps where cps: "comprehension ?solve ?ds = Inr cps"
      and res: "deltas = ?ds" "costs = map fst cps" "precisions = map snd cps"
      unfolding unfold by (auto split: sum.splits)
    from cps have len: "length cps = 100"
      and each: "\<And>i. i < 100 \<Longrightarrow> ?solve (?ds ! i) = Inr (cps ! i)"
      by (simp_all add: comprehension_Inr_iff del: upt_Suc)
    have "?solve' (deltas ! i) = Inr (costs ! i, precisions ! i)" if "i < 100" for i
      using each[OF that] solve[OF that] that len res by (simp del: upt_Suc)
    with res len show ?rhs by simp
  next
    assume r: ?rhs
    let ?cps = "zip costs precisions"
    from r have d: "deltas = ?ds" and len: "length costs = 100" "length precisions = 100"
      by simp_all
    have "?solve (?ds ! i) = Inr (?cps ! i)" if "i < 100" for i
    proof -
      have "?solve (?ds ! i) = ?solve' (?ds ! i)"
        by (rule solve[OF that])
      also have "\<dots> = ?solve' (deltas ! i)"
        by (simp only: d)
      also have "\<dots> = Inr (costs ! i, precisions ! i)"
        using r that by blast
      also have "(costs ! i, precisions ! i) = ?cps ! i"
        using that len by simp
      finally show ?thesis .
    qed
    then have "comprehension ?solve ?ds = Inr ?cps"
      using len by (simp add: comprehension_Inr_iff del: upt_Suc)
    with d len show ?lhs
      unfolding unfold by (simp del: upt_Suc)
  qed
qed

text \<open>
  Claim C7. For \<open>deltaMax \<ge> 0\<close> the sweep returns \<open>(deltas, costs, precisions)\<close> exactly when
  \<open>deltas\<close> is the list of the 100 evenly spaced magnitudes \<open>i * deltaMax / 99\<close> (from \<open>0\<close> to
  \<open>deltaMax\<close>), and the \<open>i\<close>-th cost and precision vector are the pair that
  \<open>covarianceEquilibrium\<close> returns for the example's \<open>X\<close> and exponents with the perturbation
  \<open>sqrt (deltas ! i)\<close> times the example's \<open>D\<close>. In particular the sweep returns whenever
  all 100 solves return.
\<close>

theorem compute_for_example_sweep:
  assumes "0 \<le> deltaMax"
  shows "compute_for_example minimize deltaMax example_number = Inr (deltas, costs, precisions) \<longleftrightarrow>
           deltas = map (\<lambda>i. real i * (deltaMax / 99)) [0..<100] \<and>
           length deltas = 100 \<and> deltas ! 0 = 0 \<and> deltas ! 99 = deltaMax \<and>
           length costs = 100 \<and> length precisions = 100 \<and>
           (\<forall>i<100.
              covarianceEquilibrium minimize (X_1D_examples example_number)
                (map (\<lambda>v. Finite (sqrt (deltas ! i) * v))
                   (concat (perturbation_matrix_1Dexamples example_number)))
                (exponents_1D_examples example_number)
              = Inr (costs ! i, precisions ! i))"
proof -
  let ?ds = "map (\<lambda>i. real i * (deltaMax / 99)) [0..<100]"
  have "length ?ds = 100" "?ds ! 0 = 0" "?ds ! 99 = deltaMax"
    by (simp_all add: nth_map_upt del: upt_Suc)
  then have "deltas = ?ds \<longleftrightarrow>
      deltas = ?ds \<and> length deltas = 100 \<and> deltas ! 0 = 0 \<and> deltas ! 99 = deltaMax"
    by metis
  then show ?thesis
    unfolding compute_for_example_Inr_iff[OF assms] by blast
qed

text \<open>The theorem at a concrete input.\<close>

theorem compute_for_example_sweep_witness:
  "(0 :: real) \<le> 99 \<and>
   compute_for_example clipped_start 99 1
     = Inr (map (\<lambda>i. real i * (99 / 99)) [0..<100],
            map (\<lambda>i. Finite (1 / 2 + 2 * real i)) [0..<100],
            replicate 100 [1, 1])"
proof -
  have h: "(0 :: real) \<le> 99" by simp
  let ?deltas = "map (\<lambda>i. real i * (99 / 99)) [0..<100]"
  let ?costs = "map (\<lambda>i. Finite (1 / 2 + 2 * real i)) [0..<100]"
  let ?precs = "replicate 100 [1, 1 :: real]"
  have each: "covarianceEquilibrium clipped_start (X_1D_examples 1)
        (map (\<lambda>v. Finite (sqrt (?deltas ! i) * v)) (concat (perturbation_matrix_1Dexamples 1)))
        (exponents_1D_examples 1) = Inr (?costs ! i, ?precs ! i)" if "i < 100" for i
  proof -
    have d: "?deltas ! i = real i" and c: "?costs ! i = Finite (1 / 2 + 2 * real i)"
      and p: "?precs ! i = [1, 1]"
      using that by (simp_all add: nth_map_upt del: upt_Suc map_map)
    show ?thesis
      unfolding d c p
      by (simp add: X_1D_examples_def perturbation_matrix_1Dexamples_def
            exponents_1D_examples_def example1_solve)
  qed
  have len: "length ?costs = 100" "length ?precs = 100"
    by simp_all
  have "compute_for_example clipped_start 99 1 = Inr (?deltas, ?costs, ?precs)"
    using each len
    by (intro iffD2[OF compute_for_example_sweep[OF h]] conjI allI impI)
       (simp_all add: nth_map_upt del: upt_Suc)
  with h show ?thesis by blast
qed

section \<open>Scenario builders\<close>

lemma replicate_Suc_update: "(replicate (Suc n) x)[n := y] = replicate n x @ [y]"
  by (induction n) simp_all

lemma sum_unit_vector:
  assumes "j < d"
  shows "(\<Sum>i<d. c * unit_vector d i ! j) = c"
proof -
  have "(\<Sum>i<d. c * unit_vector d i ! j) = (\<Sum>i<d. if i = j then c else 0)"
    using assms by (intro sum.cong) (auto simp: unit_vector_nth)
  also have "\<dots> = c"
    using assms by simp
  finally show ?thesis .
qed

subsection \<open>Rounding\<close>

text \<open>
  \<open>binade\<close> finds the exponent of its argument, and \<open>round_to_even\<close> moves its argument by
  at most one half.
\<close>

lemma two_powi_Suc: "(2 :: real) powi (k + 1) = 2 * 2 powi k"
  by (simp add: power_int_add)

lemma binade_bounds:
  "0 < x \<Longrightarrow> 2 powi (- int n) \<le> x \<Longrightarrow> x < 2 powi (int n + 1)
     \<Longrightarrow> 2 powi (binade n x e - e) \<le> x \<and> x < 2 powi (binade n x e - e + 1)"
proof (induction n arbitrary: x e)
  case 0
  then show ?case by simp
next
  case (Suc n)
  show ?case
  proof (cases "x < 1")
    case True
    have a: "2 powi (- int n) \<le> 2 * x"
    proof -
      have "(2 :: real) powi (- int n) = 2 * 2 powi (- int (Suc n))"
        using two_powi_Suc[of "- int (Suc n)"] by simp
      then show ?thesis
        using Suc.prems(2) by simp
    qed
    have b: "2 * x < 2 powi (int n + 1)"
    proof -
      have "2 * x < 2" using True by simp
      also have "(2 :: real) \<le> 2 powi (int n + 1)"
        using two_powi_Suc[of "int n"] one_le_power[of "2 :: real" n] by simp
      finally show ?thesis .
    qed
    from Suc.IH[of "2 * x" "e - 1", OF _ a b] Suc.prems(1)
    have "2 powi (binade n (2 * x) (e - 1) - (e - 1)) \<le> 2 * x"
      and "2 * x < 2 powi (binade n (2 * x) (e - 1) - (e - 1) + 1)"
      by simp_all
    then show ?thesis
      using True two_powi_Suc[of "binade n (2 * x) (e - 1) - e"]
        two_powi_Suc[of "binade n (2 * x) (e - 1) - e + 1"]
      by (simp add: algebra_simps)
  next
    case False
    show ?thesis
    proof (cases "2 \<le> x")
      case True
      have a: "2 powi (- int n) \<le> x / 2"
      proof -
        have "(2 :: real) powi (- int n) \<le> 1"
          by (simp add: power_int_minus field_simps one_le_power)
        then show ?thesis using True by simp
      qed
      have b: "x / 2 < 2 powi (int n + 1)"
      proof -
        have "(2 :: real) powi (int (Suc n) + 1) = 2 * 2 powi (int n + 1)"
          using two_powi_Suc[of "int n + 1"] by (simp add: add.commute)
        then show ?thesis using Suc.prems(3) by simp
      qed
      from Suc.IH[of "x / 2" "e + 1", OF _ a b] Suc.prems(1)
      have "2 powi (binade n (x / 2) (e + 1) - (e + 1)) \<le> x / 2"
        and "x / 2 < 2 powi (binade n (x / 2) (e + 1) - (e + 1) + 1)"
        by simp_all
      then show ?thesis
        using True False two_powi_Suc[of "binade n (x / 2) (e + 1) - (e + 1)"]
          two_powi_Suc[of "binade n (x / 2) (e + 1) - e"]
        by (simp add: algebra_simps)
    next
      case F2: False
      with False show ?thesis by simp
    qed
  qed
qed

lemma binade_exponent:
  assumes "2 powi (- 1100) \<le> x" and "x < 2 powi 1101"
  shows "2 powi (binade 1100 x 0) \<le> x \<and> x < 2 powi (binade 1100 x 0 + 1)"
proof -
  have "(0 :: real) < 2 powi (- 1100)"
    by simp
  with assms(1) have "0 < x"
    by linarith
  with binade_bounds[of x 1100 0] assms show ?thesis
    by simp
qed

lemma round_to_even_near: "\<bar>of_int (round_to_even x) - x\<bar> \<le> 1 / 2"
proof -
  have "of_int \<lfloor>x\<rfloor> \<le> x" "x < of_int \<lfloor>x\<rfloor> + 1"
    by linarith+
  then show ?thesis
    by (auto simp: round_to_even_def Let_def abs_le_iff)
qed

subsection \<open>The \<open>d+1\<close>-agent family\<close>

lemma fscale_one: "fscale x 1 = x"
  by (cases x) simp_all

lemma f64_sqrt_nonneg: "0 \<le> x \<Longrightarrow> f64_sqrt x = f64 (sqrt x)"
  by (simp add: f64_sqrt_def)

lemma binade_numeral:
  "binade (numeral k) x e =
     (if x < 1 then binade (pred_numeral k) (2 * x) (e - 1)
      else if 2 \<le> x then binade (pred_numeral k) (x / 2) (e + 1)
      else e)"
  by (simp add: numeral_eq_Suc)

lemmas rounding_eval = round_double_def binade_numeral round_to_even_def f64_def Let_def

lemma net_bias_nth:
  "j < d \<Longrightarrow> net_bias d X D ! j = (\<Sum>i<length X. D ! i * X ! i ! j)"
  by (simp add: net_bias_def sum_list_upt)

text \<open>
  Claim C8, as the code has it. For \<open>d \<ge> 1\<close>, \<open>delta \<ge> 0\<close> and two exponent values, the
  \<open>d+1\<close>-agent builder hands to the solver: \<open>X\<close>, the \<open>d\<close> standard basis vectors followed by
  the vector whose entries are the float nearest to \<open>1/d\<close>; \<open>D\<close>, with the rounded
  \<open>sqrt delta\<close> for the first \<open>d\<close> agents and the rounded product of \<open>-d\<close> and that square root
  for the last; the exponents, the first value for the first \<open>d\<close> agents and the second
  value for the last. Every coordinate of the net bias \<open>\<Sum>\<^sub>i D\<^sub>i \<cdot> X\<^sub>i\<close> is \<open>s + t \<cdot> x\<close>, for the
  stored values \<open>s\<close> of the first agents, \<open>t\<close> of the last agent and \<open>x\<close> of the last data
  point: the rounding residue of \<open>sqrt delta - d \<cdot> sqrt delta / d\<close>, which is zero in exact
  arithmetic and need not be zero in floats.
\<close>

theorem scenario_d_plus_1_shape:
  assumes "1 \<le> d" and "0 \<le> delta" and "2 \<le> length exps"
  shows "\<exists>X D exponents.
           scenario_d_plus_1 d delta exps = Inr (X, D, exponents) \<and>
           compute_costs_and_precisions_d_plus_1 minimize d delta exps
             = covarianceEquilibrium minimize X D exponents \<and>
           X = map (unit_vector (nat d)) [0..<nat d]
                 @ [replicate (nat d) (round_double (1 / round_double (real_of_int d)))] \<and>
           (\<forall>i<nat d. \<forall>j<nat d. X ! i ! j = (if j = i then 1 else 0)) \<and>
           D = replicate (nat d) (f64 (sqrt delta))
                 @ [f64_mul (f64 (sqrt delta)) (round_double (real_of_int (- d)))] \<and>
           exponents = replicate (nat d) (exps ! 0) @ [exps ! 1] \<and>
           (\<forall>s t. D = map Finite (replicate (nat d) s @ [t]) \<longrightarrow>
              net_bias (nat d) X (replicate (nat d) s @ [t])
                = replicate (nat d) (s + t * round_double (1 / round_double (real_of_int d))))"
proof -
  let ?n = "nat d"
  let ?x = "round_double (1 / round_double (real_of_int d))"
  let ?X = "map (unit_vector ?n) [0..<?n] @ [replicate ?n ?x]"
  let ?D = "replicate ?n (f64 (sqrt delta))
              @ [f64_mul (f64 (sqrt delta)) (round_double (real_of_int (- d)))]"
  let ?E = "replicate ?n (exps ! 0) @ [exps ! 1]"
  have scen: "scenario_d_plus_1 d delta exps = Inr (?X, ?D, ?E)"
    using assms
    by (simp add: scenario_d_plus_1_def f64_sqrt_nonneg fscale_one replicate_Suc_update Let_def
          flip: replicate_Suc)
  have basis: "?X ! i ! j = (if j = i then 1 else 0)" if "i < ?n" "j < ?n" for i j
    using that by (simp add: nth_append unit_vector_nth)
  have bias: "net_bias ?n ?X (replicate ?n s @ [t]) = replicate ?n (s + t * ?x)" for s t
  proof (rule nth_equalityI)
    show "length (net_bias ?n ?X (replicate ?n s @ [t])) = length (replicate ?n (s + t * ?x))"
      by (simp add: net_bias_def)
  next
    fix j assume "j < length (net_bias ?n ?X (replicate ?n s @ [t]))"
    then have j: "j < ?n"
      by (simp add: net_bias_def)
    let ?Dr = "replicate ?n s @ [t]"
    have "(\<Sum>i<length ?X. ?Dr ! i * ?X ! i ! j)
        = (\<Sum>i<?n. ?Dr ! i * ?X ! i ! j) + ?Dr ! ?n * ?X ! ?n ! j"
      by simp
    also have "(\<Sum>i<?n. ?Dr ! i * ?X ! i ! j) = (\<Sum>i<?n. s * unit_vector ?n i ! j)"
      by (intro sum.cong) (simp_all add: nth_append)
    also have "\<dots> = s"
      by (rule sum_unit_vector[OF j])
    also have "?Dr ! ?n * ?X ! ?n ! j = t * ?x"
      using j by (simp add: nth_append)
    finally show "net_bias ?n ?X ?Dr ! j = replicate ?n (s + t * ?x) ! j"
      using j by (simp add: net_bias_nth)
  qed
  show ?thesis
    using scen basis bias
    by (intro exI[of _ ?X] exI[of _ ?D] exI[of _ ?E])
       (simp add: compute_costs_and_precisions_d_plus_1_def)
qed

text \<open>The theorem at a concrete input, where no operation rounds and the net bias is zero.\<close>

theorem scenario_d_plus_1_shape_witness:
  "(1 :: int) \<le> 2 \<and> (0 :: real) \<le> 4 \<and> 2 \<le> length [20, 3 / 2 :: real] \<and>
   scenario_d_plus_1 2 4 [20, 3 / 2]
     = Inr ([[1, 0], [0, 1], [1 / 2, 1 / 2]], [Finite 2, Finite 2, Finite (- 4)], [20, 20, 3 / 2]) \<and>
   net_bias 2 [[1, 0], [0, 1], [1 / 2, 1 / 2]] [2, 2, - 4] = [0, 0]"
proof -
  have h1: "(1 :: int) \<le> 2" and h2: "(0 :: real) \<le> 4" and h3: "2 \<le> length [20, 3 / 2 :: real]"
    by simp_all
  have r: "round_double 2 = 2" "round_double (- 2) = - 2" "round_double (1 / 2) = 1 / 2"
    "f64 2 = Finite 2" "f64 (- 4) = Finite (- 4)"
    by (simp_all add: rounding_eval)
  from scenario_d_plus_1_shape[OF h1 h2 h3, of clipped_start] obtain X D exponents
    where "scenario_d_plus_1 2 4 [20, 3 / 2] = Inr (X, D, exponents)"
      and "X = [[1, 0], [0, 1], [1 / 2, 1 / 2]]"
      and "D = [Finite 2, Finite 2, Finite (- 4)]"
      and "exponents = [20, 20, 3 / 2]"
      and "\<forall>s t. D = map Finite (replicate (nat 2) s @ [t]) \<longrightarrow>
              net_bias (nat 2) X (replicate (nat 2) s @ [t])
                = replicate (nat 2) (s + t * round_double (1 / round_double (real_of_int 2)))"
    by (auto simp: r unit_vector_def eval_nat_numeral)
  moreover from this have "net_bias 2 [[1, 0], [0, 1], [1 / 2, 1 / 2]] [2, 2, - 4] = [0, 0]"
    by (auto simp: r eval_nat_numeral)
  ultimately show ?thesis
    using h1 h2 h3 by simp
qed

text \<open>
  Claim C8, as stated, fails: at \<open>d = 3\<close> and \<open>delta = 1\<close> the builder stores the float
  nearest to \<open>1/3\<close>, which is \<open>6004799503160661 / 2\<^sup>5\<^sup>4\<close>, and every coordinate of the net bias
  of the scenario it constructs is \<open>1 - 3 \<cdot> 6004799503160661 / 2\<^sup>5\<^sup>4 = 2\<^sup>-\<^sup>5\<^sup>4\<close>, not zero.
\<close>

theorem scenario_d_plus_1_net_bias_counterexample:
  "scenario_d_plus_1 3 1 [20, 3 / 2]
     = Inr ([[1, 0, 0], [0, 1, 0], [0, 0, 1],
             [6004799503160661 / 18014398509481984, 6004799503160661 / 18014398509481984,
              6004799503160661 / 18014398509481984]],
            map Finite [1, 1, 1, - 3], [20, 20, 20, 3 / 2]) \<and>
   net_bias 3
     [[1, 0, 0], [0, 1, 0], [0, 0, 1],
      [6004799503160661 / 18014398509481984, 6004799503160661 / 18014398509481984,
       6004799503160661 / 18014398509481984]]
     [1, 1, 1, - 3]
     = [1 / 18014398509481984, 1 / 18014398509481984, 1 / 18014398509481984] \<and>
   net_bias 3
     [[1, 0, 0], [0, 1, 0], [0, 0, 1],
      [6004799503160661 / 18014398509481984, 6004799503160661 / 18014398509481984,
       6004799503160661 / 18014398509481984]]
     [1, 1, 1, - 3]
     \<noteq> [0, 0, 0]"
proof -
  have r: "round_double 3 = 3" "round_double (- 3) = - 3"
    "round_double (1 / 3) = 6004799503160661 / 18014398509481984"
    "f64 1 = Finite 1" "f64 (- 3) = Finite (- 3)"
    by (simp_all add: rounding_eval)
  have "scenario_d_plus_1 3 1 [20, 3 / 2]
     = Inr ([[1, 0, 0], [0, 1, 0], [0, 0, 1],
             [6004799503160661 / 18014398509481984, 6004799503160661 / 18014398509481984,
              6004799503160661 / 18014398509481984]],
            map Finite [1, 1, 1, - 3], [20, 20, 20, 3 / 2])"
    by (simp add: scenario_d_plus_1_def f64_sqrt_def r unit_vector_def eval_nat_numeral upt_rec)
  moreover have "net_bias 3
     [[1, 0, 0], [0, 1, 0], [0, 0, 1],
      [6004799503160661 / 18014398509481984, 6004799503160661 / 18014398509481984,
       6004799503160661 / 18014398509481984]]
     [1, 1, 1, - 3]
     = [1 / 18014398509481984, 1 / 18014398509481984, 1 / 18014398509481984]"
    by (simp add: net_bias_def eval_nat_numeral upt_rec)
  ultimately show ?thesis
    by simp
qed

subsection \<open>The \<open>d+2\<close>-agent family\<close>

text \<open>
  Claim C9. For \<open>d \<ge> 0\<close>, every \<open>delta\<close> and two exponent values, the \<open>d+2\<close>-agent builder
  hands to the solver: \<open>X\<close>, the \<open>d\<close> standard basis vectors followed by two copies of the
  all-ones vector; \<open>D\<close>, zero except \<open>+delta\<close> for agent \<open>d\<close> and \<open>-delta\<close> for agent \<open>d+1\<close>,
  linear in \<open>delta\<close> with no square root.
\<close>

theorem scenario_d_plus_2_shape:
  assumes "0 \<le> d" and "2 \<le> length exps"
  shows "\<exists>X Dr exponents.
           scenario_d_plus_2 d delta exps = Inr (X, map Finite Dr, exponents) \<and>
           compute_costs_and_precisions minimize d delta exps
             = covarianceEquilibrium minimize X (map Finite Dr) exponents \<and>
           X = map (unit_vector (nat d)) [0..<nat d] @ [replicate (nat d) 1, replicate (nat d) 1] \<and>
           (\<forall>i<nat d. \<forall>j<nat d. X ! i ! j = (if j = i then 1 else 0)) \<and>
           Dr = replicate (nat d) 0 @ [delta, - delta] \<and>
           exponents = replicate (nat d) (exps ! 0) @ [exps ! 0, exps ! 1]"
proof -
  let ?n = "nat d"
  let ?X = "map (unit_vector ?n) [0..<?n] @ [replicate ?n 1, replicate ?n 1]"
  let ?Dr = "replicate ?n 0 @ [delta, - delta]"
  let ?E = "replicate ?n (exps ! 0) @ [exps ! 0, exps ! 1]"
  have upd2: "(replicate (n + 2) x)[n := y, n + 1 := z] = replicate n x @ [y, z]" for n and x y z :: 'a
    by (induction n) simp_all
  have upd1: "(replicate (n + 2) x)[n + 1 := z] = replicate n x @ [x, z]" for n and x z :: 'a
    by (induction n) simp_all
  have scen: "scenario_d_plus_2 d delta exps = Inr (?X, map Finite ?Dr, ?E)"
    using assms unfolding scenario_d_plus_2_def Let_def map_replicate upd1 upd2 by simp
  have basis: "?X ! i ! j = (if j = i then 1 else 0)" if "i < ?n" "j < ?n" for i j
    using that by (simp add: nth_append unit_vector_nth)
  show ?thesis
    using scen basis
    by (intro exI[of _ ?X] exI[of _ ?Dr] exI[of _ ?E])
       (simp add: compute_costs_and_precisions_def)
qed

text \<open>The theorem at a concrete input.\<close>

theorem scenario_d_plus_2_shape_witness:
  "(0 :: int) \<le> 2 \<and> 2 \<le> length [20, 3 / 2 :: real] \<and>
   scenario_d_plus_2 2 (1 / 5) [20, 3 / 2]
     = Inr ([[1, 0], [0, 1], [1, 1], [1, 1]],
            [Finite 0, Finite 0, Finite (1 / 5), Finite (- (1 / 5))], [20, 20, 20, 3 / 2])"
proof -
  have h1: "(0 :: int) \<le> 2" and h2: "2 \<le> length [20, 3 / 2 :: real]"
    by simp_all
  from scenario_d_plus_2_shape[OF h1 h2, of "1 / 5" clipped_start] h1 h2 show ?thesis
    by (auto simp: unit_vector_def eval_nat_numeral)
qed

end
